theory Spec2Isabelle
  imports Main
begin

chapter \<open>Task dependency system: cycle detection, status derivation, graph layout\<close>

section \<open>Graph model\<close>

text \<open>
  A task is identified by its integer primary key. The \<open>task_dependencies\<close> table holds one
  row \<open>(task_id, depends_on_id)\<close> per edge, read "task depends on depends_on"; the graph is
  the list of these rows in insertion order.
\<close>

type_synonym task_id = nat

type_synonym graph = "(task_id \<times> task_id) list"

definition get_dependencies :: "graph \<Rightarrow> task_id \<Rightarrow> task_id list" where
  "get_dependencies g t = map snd (filter (\<lambda>e. fst e = t) g)"

definition get_dependents :: "graph \<Rightarrow> task_id \<Rightarrow> task_id list" where
  "get_dependents g t = map fst (filter (\<lambda>e. snd e = t) g)"

section \<open>Cycle detector\<close>

type_synonym frame = "task_id \<times> task_id list"

text \<open>
  Modelled from the spec: the body of \<open>dfs_has_path\<close>, which \<open>detect_cycle\<close> calls, is part of
  \<open>backend/services.py\<close>; the sources show only the call. The spec describes a depth-first
  traversal that starts at the dependency, follows the existing depends-on edges outward and
  keeps a visited set and an explicit path stack; the path it reports shows the loop closing
  back to the starting node of the new edge, \<open>[1, 2, 1]\<close> and \<open>[1, 3, 2, 1]\<close> in the spec's
  scenarios, as in every path the repository's guides list.

  The path stack is a list of frames, top first: a node together with those of its
  dependencies that have not been looked at yet. The path opens with the new edge: the
  dependent, which is the target of the search, and then the nodes of the frames read from
  the bottom, the dependency first. The result is the source's return value (\<open>None\<close> for
  \<open>False\<close>, \<open>Some path\<close> for \<open>True\<close> with the contents of \<open>path\<close>) together with the
  contents of \<open>visited\<close>.
\<close>

function dfs_loop ::
  "graph \<Rightarrow> task_id \<Rightarrow> task_id set \<Rightarrow> frame list \<Rightarrow> task_id list option \<times> task_id set" where
  "dfs_loop g target visited [] = (None, visited)"
| "dfs_loop g target visited ((n, []) # st) = dfs_loop g target visited st"
| "dfs_loop g target visited ((n, m # ms) # st) =
     (if m = target then (Some (target # rev (n # map fst st)), visited)
      else if m \<in> visited then dfs_loop g target visited ((n, ms) # st)
      else dfs_loop g target (insert m visited)
             ((m, get_dependencies g m) # (n, ms) # st))"
  by pat_completeness auto

text \<open>
  Every step either marks a node that is still to be looked at, or shortens the stack or one
  of its frames; the nodes still to be looked at are targets of edges or sit in a frame.
\<close>

definition candidates :: "graph \<Rightarrow> frame list \<Rightarrow> task_id set" where
  "candidates g st = snd ` set g \<union> (\<Union>f \<in> set st. set (snd f))"

termination dfs_loop
proof (relation "measures [\<lambda>(g, t, v, st). card (candidates g st - v),
                           \<lambda>(g, t, v, st). length st + sum_list (map (length \<circ> snd) st)]",
       goal_cases)
  case 1
  show ?case by simp
next
  case (2 g target visited n st)
  have "candidates g st = candidates g ((n, []) # st)" by (simp add: candidates_def)
  then show ?case by simp
next
  case (3 g target visited n m ms st)
  have "candidates g ((n, ms) # st) - visited = candidates g ((n, m # ms) # st) - visited"
    using 3 by (auto simp: candidates_def)
  then show ?case by simp
next
  case (4 g target visited n m ms st)
  let ?old = "candidates g ((n, m # ms) # st) - visited"
  let ?new = "candidates g ((m, get_dependencies g m) # (n, ms) # st) - insert m visited"
  have "m \<in> ?old" using 4 by (simp add: candidates_def)
  moreover have "m \<notin> ?new" by simp
  moreover have "?new \<subseteq> ?old"
    by (auto simp: candidates_def get_dependencies_def)
  ultimately have "?new \<subset> ?old" by blast
  moreover have "finite ?old" by (simp add: candidates_def)
  ultimately have "card ?new < card ?old" by (rule psubset_card_mono[rotated])
  then show ?case by simp
qed

text \<open>
  Modelled from the spec: the entry of \<open>dfs_has_path(depends_on_id, task_id, visited, path)\<close>,
  called with \<open>visited\<close> and \<open>path\<close> empty. The start node is marked. The dependent is
  reached at once when it is the start node itself; otherwise the start node is alone on the
  stack.
\<close>

definition dfs_has_path ::
  "graph \<Rightarrow> task_id \<Rightarrow> task_id \<Rightarrow> task_id list option \<times> task_id set" where
  "dfs_has_path g start target =
     (if start = target then (Some [target], {start})
      else dfs_loop g target {start} [(start, get_dependencies g start)])"

text \<open>
  \<open>detect_cycle(task_id, depends_on_id)\<close>: search from \<open>depends_on_id\<close> for \<open>task_id\<close>; when
  found, \<open>task_id\<close> is appended to the path to complete the cycle.
\<close>

definition detect_cycle :: "graph \<Rightarrow> task_id \<Rightarrow> task_id \<Rightarrow> task_id list option" where
  "detect_cycle g task_id depends_on_id =
     (case fst (dfs_has_path g depends_on_id task_id) of
        Some path \<Rightarrow> Some (path @ [task_id])
      | None \<Rightarrow> None)"

text \<open>The local set \<open>visited\<close> of \<open>detect_cycle\<close> when it returns: the nodes its search marked.\<close>

definition detect_cycle_visited :: "graph \<Rightarrow> task_id \<Rightarrow> task_id \<Rightarrow> task_id set" where
  "detect_cycle_visited g task_id depends_on_id = snd (dfs_has_path g depends_on_id task_id)"

text \<open>
  Modelled from the spec: the outcomes of an edge proposal, acceptance or exactly one of
  three errors, the circular one carrying the path.
\<close>

datatype rejection = SelfDependency | DuplicateDependency | CircularDependency "task_id list"

datatype outcome = Accept | Reject rejection

text \<open>
  Modelled from the spec: the admission check around \<open>detect_cycle\<close> lives in
  \<open>backend/views.py\<close> and \<open>backend/serializers.py\<close>, which are not among the sources. The spec
  has the self-edge rejected first, then the duplicate, both before any traversal; only then
  is the search run. The check yields the outcome and the nodes that were traversed: those
  \<open>detect_cycle\<close> marked when it was called, none when it was not.
\<close>

definition admission_check :: "graph \<Rightarrow> task_id \<Rightarrow> task_id \<Rightarrow> outcome \<times> task_id set" where
  "admission_check g dependent dependency =
     (if dependent = dependency then (Reject SelfDependency, {})
      else if (dependent, dependency) \<in> set g then (Reject DuplicateDependency, {})
      else (case detect_cycle g dependent dependency of
              Some path \<Rightarrow> Reject (CircularDependency path)
            | None \<Rightarrow> Accept,
            detect_cycle_visited g dependent dependency))"

text \<open>Modelled from the spec: \<open>ProposeEdge\<close> is the outcome of the admission check.\<close>

definition ProposeEdge :: "graph \<Rightarrow> task_id \<Rightarrow> task_id \<Rightarrow> outcome" where
  "ProposeEdge g dependent dependency = fst (admission_check g dependent dependency)"



text \<open>
  The search invariant: the dependent has not been marked, and every dependency of a marked
  node is marked itself or still waits in a frame of that node.
\<close>

definition dfs_inv :: "graph \<Rightarrow> task_id \<Rightarrow> task_id set \<Rightarrow> frame list \<Rightarrow> bool" where
  "dfs_inv g target visited st \<longleftrightarrow>
     target \<notin> visited \<and>
     (\<forall>x \<in> visited. \<forall>y. (x, y) \<in> set g \<longrightarrow>
        y \<in> visited \<or> (\<exists>r. (x, r) \<in> set st \<and> y \<in> set r))"


text \<open>
  A task as \<open>TaskItem.jsx\<close> receives it, with the ids of its dependencies and dependents, and
  the tasks the component offers as new dependencies:
  \<open>tasks.filter(t => t.id !== task.id && !task.dependencies.includes(t.id))\<close>.
\<close>

record task =
  task_pk :: task_id
  task_dependencies :: "task_id list"
  task_dependents :: "task_id list"

definition availableDependencies :: "task \<Rightarrow> task list \<Rightarrow> task list" where
  "availableDependencies task tasks =
     filter (\<lambda>t. task_pk t \<noteq> task_pk task \<and> task_pk t \<notin> set (task_dependencies task)) tasks"

section \<open>Status resolver and cascade\<close>

datatype status = pending | in_progress | completed | blocked

text \<open>The \<open>status\<close> column of the \<open>tasks\<close> table, by primary key.\<close>

type_synonym statuses = "task_id \<Rightarrow> status"

text \<open>
  The value of \<open>self.status\<close> after the \<open>if\<close>/\<open>elif\<close> of
  \<open>update_status_based_on_dependencies\<close>: \<open>blocked\<close> when the queryset of blocked dependencies
  is not empty, \<open>in_progress\<close> when \<open>all(d.status == 'completed' for d in dependencies)\<close>
  holds, and otherwise what it was, since there is no \<open>else\<close>. The assignment is taken as
  stored in the table, where the dependents read it (the tests reload a task with
  \<open>refresh_from_db\<close> and expect the new status).
\<close>

definition status_from_dependencies :: "graph \<Rightarrow> statuses \<Rightarrow> task_id \<Rightarrow> status" where
  "status_from_dependencies g s t =
     (let dependencies = get_dependencies g t in
      if list_ex (\<lambda>d. s d = blocked) dependencies then blocked
      else if list_all (\<lambda>d. s d = completed) dependencies then in_progress
      else s t)"

text \<open>
  \<open>update_status_based_on_dependencies\<close> assigns the task's own status and then calls itself
  on every dependent, in order. The recursion is as deep as the longest chain of dependents
  and does not end on a cycle; the first argument bounds its depth, and \<open>None\<close> is a run cut
  off at that bound.
\<close>

fun update_status_based_on_dependencies ::
      "nat \<Rightarrow> graph \<Rightarrow> task_id \<Rightarrow> statuses \<Rightarrow> statuses option"
  and cascade_to_dependents ::
      "nat \<Rightarrow> graph \<Rightarrow> task_id list \<Rightarrow> statuses \<Rightarrow> statuses option" where
  "update_status_based_on_dependencies 0 g t s = None"
| "update_status_based_on_dependencies (Suc k) g t s =
     cascade_to_dependents k g (get_dependents g t) (s(t := status_from_dependencies g s t))"
| "cascade_to_dependents k g [] s = Some s"
| "cascade_to_dependents k g (dependent # rest) s =
     (case update_status_based_on_dependencies k g dependent s of
        None \<Rightarrow> None
      | Some s' \<Rightarrow> cascade_to_dependents k g rest s')"

text \<open>One assignment of the resolver, as a step on the table of statuses.\<close>

definition assign_status :: "graph \<Rightarrow> task_id \<Rightarrow> statuses \<Rightarrow> statuses" where
  "assign_status g t s = s(t := status_from_dependencies g s t)"

text \<open>
  The tasks a cascade assigns, in the order of the assignments; a task that is reached along
  several chains of dependents appears once for each.
\<close>

fun visits :: "nat \<Rightarrow> graph \<Rightarrow> task_id \<Rightarrow> task_id list option"
  and visits_all :: "nat \<Rightarrow> graph \<Rightarrow> task_id list \<Rightarrow> task_id list option" where
  "visits 0 g t = None"
| "visits (Suc k) g t = map_option ((#) t) (visits_all k g (get_dependents g t))"
| "visits_all k g [] = Some []"
| "visits_all k g (dependent # rest) =
     (case visits k g dependent of
        None \<Rightarrow> None
      | Some v \<Rightarrow> map_option ((@) v) (visits_all k g rest))"

text \<open>In a list of assignments, every assignment of a task is followed by one of each of its dependents.\<close>

definition followed :: "graph \<Rightarrow> task_id list \<Rightarrow> bool" where
  "followed g v \<longleftrightarrow> (\<forall>v1 y v2 x. v = v1 @ y # v2 \<longrightarrow> (x, y) \<in> set g \<longrightarrow> x \<in> set v2)"

section \<open>Graph layout\<close>

text \<open>
  \<open>graphData\<close> as \<open>DependencyGraph.jsx\<close> receives it: nodes with an id, a title and a status,
  and edges \<open>{from, to}\<close>, \<open>from\<close> depending on \<open>to\<close>.
\<close>

record graph_node =
  node_id :: task_id
  title :: string
  node_status :: status

record edge =
  edge_from :: task_id
  edge_to :: task_id

record graphData =
  nodes :: "graph_node list"
  edges :: "edge list"

text \<open>
  The object \<open>layers\<close>, from layer number to the array of node ids pushed to that layer, as
  an association list with one entry per key.
\<close>

type_synonym layers = "(nat \<times> task_id list) list"

text \<open>\<open>layers[layer]\<close>, read as no nodes where the key is absent.\<close>

definition layer_of :: "layers \<Rightarrow> nat \<Rightarrow> task_id list" where
  "layer_of ls layer = (case map_of ls layer of Some ns \<Rightarrow> ns | None \<Rightarrow> [])"

text \<open>\<open>if (!layers[layer]) layers[layer] = []; layers[layer].push(nodeId);\<close>\<close>

fun push_layer :: "nat \<Rightarrow> task_id \<Rightarrow> layers \<Rightarrow> layers" where
  "push_layer layer nodeId [] = [(layer, [nodeId])]"
| "push_layer layer nodeId ((k, ns) # ls) =
     (if k = layer then (k, ns @ [nodeId]) # ls else (k, ns) # push_layer layer nodeId ls)"

record layout_state =
  visited :: "task_id set"
  layers :: layers

text \<open>
  \<open>graphData.edges.filter(edge => edge.to === nodeId).map(edge => edge.from)\<close>
\<close>

definition dependents_of :: "edge list \<Rightarrow> task_id \<Rightarrow> task_id list" where
  "dependents_of es nodeId = map edge_from (filter (\<lambda>e. edge_to e = nodeId) es)"

text \<open>
  \<open>calculateLayer\<close> returns at once on a visited node; otherwise it marks the node, pushes it
  to its layer and calls itself on each dependent with the next layer, the calls sharing
  \<open>visited\<close> and \<open>layers\<close>. The first argument bounds the depth of the calls; \<open>None\<close> is a run
  cut off at that bound.
\<close>

fun calculateLayer :: "nat \<Rightarrow> edge list \<Rightarrow> task_id \<Rightarrow> nat \<Rightarrow> layout_state \<Rightarrow> layout_state option"
  and calculateLayer_forEach ::
      "nat \<Rightarrow> edge list \<Rightarrow> task_id list \<Rightarrow> nat \<Rightarrow> layout_state \<Rightarrow> layout_state option" where
  "calculateLayer 0 es nodeId layer st = None"
| "calculateLayer (Suc k) es nodeId layer st =
     (if nodeId \<in> visited st then Some st
      else calculateLayer_forEach k es (dependents_of es nodeId) (layer + 1)
             (st\<lparr>visited := insert nodeId (visited st),
                 layers := push_layer layer nodeId (layers st)\<rparr>))"
| "calculateLayer_forEach k es [] layer st = Some st"
| "calculateLayer_forEach k es (depId # rest) layer st =
     (case calculateLayer k es depId layer st of
        None \<Rightarrow> None
      | Some st' \<Rightarrow> calculateLayer_forEach k es rest layer st')"

text \<open>The nodes that no edge leaves: they depend on nothing.\<close>

definition rootNodes :: "graphData \<Rightarrow> task_id list" where
  "rootNodes gd =
     map node_id (filter (\<lambda>node. \<not> list_ex (\<lambda>e. edge_from e = node_id node) (edges gd)) (nodes gd))"

text \<open>"Add any remaining nodes": every node not visited is pushed to layer 0.\<close>

definition add_remaining :: "graph_node list \<Rightarrow> layout_state \<Rightarrow> layers" where
  "add_remaining ns st =
     fold (\<lambda>node ls. if node_id node \<in> visited st then ls else push_layer 0 (node_id node) ls)
       ns (layers st)"

type_synonym positions = "task_id \<rightharpoonup> int \<times> int"

text \<open>
  One layer: \<open>layerWidth = layerNodes.length * 200\<close>, \<open>startX = -layerWidth / 2 + 100\<close>, and the
  node at \<open>index\<close> is placed at \<open>(startX + index * 200, layerIndex * 100)\<close>. With the spacings
  200 and 100 every coordinate is a whole number.
\<close>

definition place_layer :: "nat \<Rightarrow> task_id list \<Rightarrow> positions \<Rightarrow> positions" where
  "place_layer layerIndex layerNodes pos =
     (let layerWidth = int (length layerNodes) * 200;
          startX = - layerWidth div 2 + 200 div 2
      in fold (\<lambda>(index, nodeId) p. p(nodeId \<mapsto> (startX + int index * 200, int layerIndex * 100)))
           (enumerate 0 layerNodes) pos)"

text \<open>
  \<open>layerKeys\<close> are the keys of \<open>layers\<close> in ascending numeric order; the layers are placed in
  that order, the position of a key in it giving the row.
\<close>

definition place_layers :: "layers \<Rightarrow> positions" where
  "place_layers ls =
     fold (\<lambda>(layerIndex, layerKey) p. place_layer layerIndex (layer_of ls layerKey) p)
       (enumerate 0 (sort (map fst ls))) Map.empty"

text \<open>
  \<open>calculateNodePositions\<close>, from the state \<open>nodePositions\<close> to its next value: unchanged when
  there are no nodes (the early \<open>return\<close>), the computed positions otherwise.
\<close>

definition calculateNodePositions :: "nat \<Rightarrow> graphData \<Rightarrow> positions \<Rightarrow> positions option" where
  "calculateNodePositions k gd nodePositions =
     (case nodes gd of
        [] \<Rightarrow> Some nodePositions
      | first # _ \<Rightarrow>
          (case (if rootNodes gd = []
                 then calculateLayer k (edges gd) (node_id first) 0 \<lparr>visited = {}, layers = []\<rparr>
                 else calculateLayer_forEach k (edges gd) (rootNodes gd) 0
                        \<lparr>visited = {}, layers = []\<rparr>) of
             None \<Rightarrow> None
           | Some st \<Rightarrow> Some (place_layers (add_remaining (nodes gd) st))))"

text \<open>The node ids that sit in some layer.\<close>

definition layer_nodes :: "layers \<Rightarrow> task_id set" where
  "layer_nodes ls = (\<Union>k \<in> fst ` set ls. set (layer_of ls k))"

text \<open>The node ids a nested call of \<open>calculateLayer\<close> can still mark: sources of edges not visited yet.\<close>

definition unvisited_sources :: "edge list \<Rightarrow> layout_state \<Rightarrow> task_id set" where
  "unvisited_sources es st = edge_from ` set es - visited st"

text \<open>
  A graph with a chain 3\<rightarrow>2\<rightarrow>1 below the root 1, and two nodes 5 and 6 that depend on each
  other and are reached from no root.
\<close>

definition example_graphData :: graphData where
  "example_graphData =
     \<lparr>nodes = [\<lparr>node_id = 1, title = ''plan'', node_status = completed\<rparr>,
               \<lparr>node_id = 2, title = ''design'', node_status = in_progress\<rparr>,
               \<lparr>node_id = 3, title = ''build'', node_status = pending\<rparr>,
               \<lparr>node_id = 5, title = ''left'', node_status = pending\<rparr>,
               \<lparr>node_id = 6, title = ''right'', node_status = pending\<rparr>],
      edges = [\<lparr>edge_from = 2, edge_to = 1\<rparr>, \<lparr>edge_from = 3, edge_to = 2\<rparr>,
               \<lparr>edge_from = 5, edge_to = 6\<rparr>, \<lparr>edge_from = 6, edge_to = 5\<rparr>]\<rparr>"

section \<open>The cycle detector decides reachability\<close>

lemma ProposeEdge_unfold:
  "ProposeEdge g dependent dependency =
     (if dependent = dependency then Reject SelfDependency
      else if (dependent, dependency) \<in> set g then Reject DuplicateDependency
      else case detect_cycle g dependent dependency of
             Some path \<Rightarrow> Reject (CircularDependency path)
           | None \<Rightarrow> Accept)"
  by (simp add: ProposeEdge_def admission_check_def)

lemma get_dependencies_set: "set (get_dependencies g n) = set g `` {n}"
  by (force simp: get_dependencies_def)

lemma dfs_loop_sound:
  "fst (dfs_loop g target seen st) = Some p \<Longrightarrow>
   (\<forall>(n, r) \<in> set st. set r \<subseteq> set g `` {n}) \<Longrightarrow>
   \<exists>(n, r) \<in> set st. (n, target) \<in> (set g)\<^sup>+"
proof (induction g target seen st rule: dfs_loop.induct)
  case (1 g target seen)
  then show ?case by simp
next
  case (2 g target seen n st)
  then show ?case by auto
next
  case (3 g target seen n m ms st)
  show ?case
  proof (cases "m = target")
    case True
    with "3.prems"(2) have "(n, target) \<in> set g" by auto
    then show ?thesis by auto
  next
    case nt: False
    show ?thesis
    proof (cases "m \<in> seen")
      case True
      with nt 3 have "\<exists>(n, r) \<in> set ((n, ms) # st). (n, target) \<in> (set g)\<^sup>+"
        by auto
      then show ?thesis by auto
    next
      case False
      have "\<forall>(n, r) \<in> set ((m, get_dependencies g m) # (n, ms) # st). set r \<subseteq> set g `` {n}"
        using "3.prems"(2) by (auto simp: get_dependencies_set)
      with nt False 3 have
        "\<exists>(n, r) \<in> set ((m, get_dependencies g m) # (n, ms) # st). (n, target) \<in> (set g)\<^sup>+"
        by auto
      moreover have "(n, m) \<in> set g" using "3.prems"(2) by auto
      ultimately show ?thesis by (auto intro: trancl_into_trancl2)
    qed
  qed
qed

lemma dfs_loop_complete:
  "fst (dfs_loop g target seen st) = None \<Longrightarrow> dfs_inv g target seen st \<Longrightarrow>
   \<exists>C. seen \<subseteq> C \<and> set g `` C \<subseteq> C \<and> target \<notin> C"
proof (induction g target seen st rule: dfs_loop.induct)
  case (1 g target seen)
  then have "set g `` seen \<subseteq> seen" "target \<notin> seen"
    by (auto simp: dfs_inv_def)
  then show ?case by blast
next
  case (2 g target seen n st)
  from "2.prems"(2) have "dfs_inv g target seen st"
    unfolding dfs_inv_def by (auto; metis empty_iff empty_set)
  with 2 show ?case by simp
next
  case (3 g target seen n m ms st)
  from "3.prems"(1) have nt: "m \<noteq> target" by (auto split: if_splits)
  show ?case
  proof (cases "m \<in> seen")
    case True
    from "3.prems"(2) True have "dfs_inv g target seen ((n, ms) # st)"
      unfolding dfs_inv_def by (auto; metis set_ConsD)
    with 3 nt True show ?thesis by simp
  next
    case False
    from "3.prems"(2) nt have "dfs_inv g target (insert m seen)
         ((m, get_dependencies g m) # (n, ms) # st)"
      unfolding dfs_inv_def by (auto simp: get_dependencies_set; metis set_ConsD)
    with "3.IH"(2)[OF nt False] "3.prems"(1) nt False obtain C where
      "insert m seen \<subseteq> C" "set g `` C \<subseteq> C" "target \<notin> C"
      by auto
    then show ?thesis by blast
  qed
qed


lemma dfs_has_path_None_iff:
  "fst (dfs_has_path g start target) = None \<longleftrightarrow> (start, target) \<notin> (set g)\<^sup>*"
proof (cases "start = target")
  case True
  then show ?thesis by (simp add: dfs_has_path_def)
next
  case ne: False
  let ?st = "[(start, get_dependencies g start)]"
  show ?thesis
  proof
    assume "fst (dfs_has_path g start target) = None"
    with ne have none: "fst (dfs_loop g target {start} ?st) = None"
      by (simp add: dfs_has_path_def)
    have "dfs_inv g target {start} ?st"
      using ne by (auto simp: dfs_inv_def get_dependencies_set)
    from dfs_loop_complete[OF none this] obtain C where
      C: "start \<in> C" "set g `` C \<subseteq> C" "target \<notin> C" by auto
    have "y \<in> C" if "(start, y) \<in> (set g)\<^sup>*" for y
      using that by (induction rule: rtrancl_induct) (use C in auto)
    with C(3) show "(start, target) \<notin> (set g)\<^sup>*" by blast
  next
    assume nr: "(start, target) \<notin> (set g)\<^sup>*"
    show "fst (dfs_has_path g start target) = None"
    proof (rule ccontr)
      assume "fst (dfs_has_path g start target) \<noteq> None"
      with ne obtain p where "fst (dfs_loop g target {start} ?st) = Some p"
        by (auto simp: dfs_has_path_def)
      from dfs_loop_sound[OF this] have "(start, target) \<in> (set g)\<^sup>+"
        by (auto simp: get_dependencies_set)
      with nr show False by (simp add: trancl_into_rtrancl)
    qed
  qed
qed

lemma detect_cycle_None_iff:
  "detect_cycle g u v = None \<longleftrightarrow> (v, u) \<notin> (set g)\<^sup>*"
proof -
  have "detect_cycle g u v = None \<longleftrightarrow> fst (dfs_has_path g v u) = None"
    by (simp add: detect_cycle_def split: option.splits)
  then show ?thesis by (simp add: dfs_has_path_None_iff)
qed

lemma acyclic_two: "acyclic (set [(2::nat, 1::nat), (3, 2)])"
proof -
  have "wf (measure (\<lambda>n::nat. n))" by simp
  moreover have "(set [(2::nat, 1::nat), (3, 2)])\<inverse> \<subseteq> measure (\<lambda>n. n)" by auto
  ultimately have "wf ((set [(2::nat, 1::nat), (3, 2)])\<inverse>)" by (rule wf_subset)
  then show ?thesis using wf_acyclic acyclic_converse by blast
qed






text \<open>
  C1. \<open>ProposeEdge\<close> accepts the edge \<open>(u, v)\<close>, \<open>u\<close> the dependent and \<open>v\<close> the
  dependency, exactly when \<open>u\<close> is not reachable from \<open>v\<close> along existing edges, \<open>u\<close> and
  \<open>v\<close> differ, and \<open>(u, v)\<close> is not an edge yet; every other call is rejected with exactly
  one error.
\<close>

theorem ProposeEdge_accepts_iff:
  "(ProposeEdge g u v = Accept \<longleftrightarrow>
      (v, u) \<notin> (set g)\<^sup>* \<and> u \<noteq> v \<and> (u, v) \<notin> set g) \<and>
   (ProposeEdge g u v \<noteq> Accept \<longrightarrow> (\<exists>!e. ProposeEdge g u v = Reject e))"
proof
  show "ProposeEdge g u v = Accept \<longleftrightarrow>
      (v, u) \<notin> (set g)\<^sup>* \<and> u \<noteq> v \<and> (u, v) \<notin> set g"
    using detect_cycle_None_iff[of g u v]
    by (auto simp: ProposeEdge_unfold split: option.splits)
  show "ProposeEdge g u v \<noteq> Accept \<longrightarrow> (\<exists>!e. ProposeEdge g u v = Reject e)"
    by (cases "ProposeEdge g u v") auto
qed

theorem ProposeEdge_accepts_iff_witness:
  "ProposeEdge [(2, 1), (3, 2)] 3 1 = Accept \<and>
   ProposeEdge [(2, 1), (3, 2)] 1 3 \<noteq> Accept \<and>
   (1, 3) \<notin> (set [(2::nat, 1::nat), (3, 2)])\<^sup>* \<and>
   (\<exists>!e. ProposeEdge [(2, 1), (3, 2)] 1 3 = Reject e)"
proof -
  have a: "ProposeEdge [(2, 1), (3, 2)] 3 1 = Accept"
    by (simp add: ProposeEdge_unfold detect_cycle_def dfs_has_path_def get_dependencies_def)
  have b: "ProposeEdge [(2, 1), (3, 2)] 1 3 \<noteq> Accept"
    by (simp add: ProposeEdge_unfold detect_cycle_def dfs_has_path_def get_dependencies_def)
  from a b ProposeEdge_accepts_iff[of "[(2, 1), (3, 2)]" 3 1]
    ProposeEdge_accepts_iff[of "[(2, 1), (3, 2)]" 1 3]
  show ?thesis by blast
qed

text \<open>
  C5. If the edge set is acyclic and \<open>ProposeEdge\<close> accepts an edge, the graph with that edge
  added is acyclic again.
\<close>

theorem accepted_edge_keeps_acyclic:
  "acyclic (set g) \<Longrightarrow> ProposeEdge g u v = Accept \<Longrightarrow> acyclic (set (g @ [(u, v)]))"
proof -
  assume ac: "acyclic (set g)" and acc: "ProposeEdge g u v = Accept"
  from acc have "detect_cycle g u v = None"
    by (auto simp: ProposeEdge_unfold split: if_splits option.splits)
  then have "(v, u) \<notin> (set g)\<^sup>*" by (simp add: detect_cycle_None_iff)
  with ac have "acyclic (insert (u, v) (set g))" by (simp add: acyclic_insert)
  then show ?thesis by simp
qed

theorem accepted_edge_keeps_acyclic_witness:
  "acyclic (set [(2::nat, 1::nat), (3, 2)]) \<and> ProposeEdge [(2, 1), (3, 2)] 3 1 = Accept \<and>
   acyclic (set ([(2::nat, 1::nat), (3, 2)] @ [(3, 1)]))"
proof -
  have a: "ProposeEdge [(2, 1), (3, 2)] 3 1 = Accept"
    by (simp add: ProposeEdge_unfold detect_cycle_def dfs_has_path_def get_dependencies_def)
  from accepted_edge_keeps_acyclic[OF acyclic_two a] acyclic_two a show ?thesis by blast
qed

text \<open>
  The component never offers what the admission check would reject as a self-edge or as a
  duplicate, when the task's list of dependencies is the graph's.
\<close>

lemma offered_dependency_not_self_nor_duplicate:
  assumes "task_dependencies task = get_dependencies g (task_pk task)"
    and "t \<in> set (availableDependencies task tasks)"
  shows "ProposeEdge g (task_pk task) (task_pk t) \<noteq> Reject SelfDependency"
    and "ProposeEdge g (task_pk task) (task_pk t) \<noteq> Reject DuplicateDependency"
proof -
  from assms(2) have ne: "task_pk t \<noteq> task_pk task"
    and nd: "task_pk t \<notin> set (task_dependencies task)"
    by (auto simp: availableDependencies_def)
  from nd assms(1) have "(task_pk task, task_pk t) \<notin> set g"
    by (auto simp: get_dependencies_set)
  with ne show "ProposeEdge g (task_pk task) (task_pk t) \<noteq> Reject SelfDependency"
    and "ProposeEdge g (task_pk task) (task_pk t) \<noteq> Reject DuplicateDependency"
    by (auto simp: ProposeEdge_unfold split: option.splits)
qed






section \<open>The cascade as a sequence of assignments\<close>

lemma cascade_as_fold:
  "update_status_based_on_dependencies k g t s =
     map_option (\<lambda>v. fold (assign_status g) v s) (visits k g t)"
  "cascade_to_dependents k g ds s =
     map_option (\<lambda>v. fold (assign_status g) v s) (visits_all k g ds)"
proof (induction k g t s and k g ds s
       rule: update_status_based_on_dependencies_cascade_to_dependents.induct)
  case (1 g t s)
  show ?case by simp
next
  case (2 k g t s)
  have "s(t := status_from_dependencies g s t) = assign_status g t s"
    by (simp add: assign_status_def)
  with 2 show ?case
    by (simp add: option.map_comp comp_def)
next
  case (3 k g s)
  show ?case by simp
next
  case (4 k g dependent rest s)
  show ?case
  proof (cases "visits k g dependent")
    case None
    with 4 show ?thesis by simp
  next
    case (Some v)
    with 4 show ?thesis
      by (simp add: option.map_comp comp_def)
  qed
qed

lemma followed_Nil: "followed g []"
  by (simp add: followed_def)

lemma followed_append:
  assumes "followed g v" "followed g w"
  shows "followed g (v @ w)"
  unfolding followed_def
proof (intro allI impI)
  fix v1 y v2 x
  assume eq: "v @ w = v1 @ y # v2" and e: "(x, y) \<in> set g"
  from eq consider u where "v = v1 @ y # u" "v2 = u @ w"
    | u where "v1 = v @ u" "w = u @ y # v2"
    by (auto simp: append_eq_append_conv2 append_eq_Cons_conv Cons_eq_append_conv)
  then show "x \<in> set v2"
  proof cases
    case 1
    with assms(1) e show ?thesis by (auto simp: followed_def)
  next
    case 2
    with assms(2) e show ?thesis unfolding followed_def by blast
  qed
qed

lemma followed_Cons:
  assumes "followed g v" "\<forall>x. (x, t) \<in> set g \<longrightarrow> x \<in> set v"
  shows "followed g (t # v)"
  unfolding followed_def
proof (intro allI impI)
  fix v1 y v2 x
  assume eq: "t # v = v1 @ y # v2" and e: "(x, y) \<in> set g"
  show "x \<in> set v2"
  proof (cases v1)
    case Nil
    with eq assms(2) e show ?thesis by auto
  next
    case (Cons a u)
    with eq have "v = u @ y # v2" by simp
    with assms(1) e show ?thesis unfolding followed_def by blast
  qed
qed

lemma visits_shape:
  "visits k g t = Some v \<Longrightarrow> followed g v \<and> t \<in> set v"
  "visits_all k g ds = Some v \<Longrightarrow> followed g v \<and> set ds \<subseteq> set v"
proof (induction k g t and k g ds arbitrary: v and v rule: visits_visits_all.induct)
  case (1 g t)
  then show ?case by simp
next
  case (2 k g t)
  from "2.prems" obtain w where w: "visits_all k g (get_dependents g t) = Some w" "v = t # w"
    by auto
  from "2.IH"[OF w(1)] have "followed g w" "set (get_dependents g t) \<subseteq> set w" by auto
  moreover have "\<forall>x. (x, t) \<in> set g \<longrightarrow> x \<in> set (get_dependents g t)"
    by (force simp: get_dependents_def)
  ultimately show ?case using w(2) by (auto intro!: followed_Cons)
next
  case (3 k g)
  then show ?case by (simp add: followed_Nil)
next
  case (4 k g dependent rest)
  from "4.prems" obtain a b where
    ab: "visits k g dependent = Some a" "visits_all k g rest = Some b" "v = a @ b"
    by (auto split: option.splits)
  from "4.IH"(1)[OF ab(1)] "4.IH"(2)[OF ab(1) ab(2)] ab(3)
  show ?case by (auto intro: followed_append)
qed


lemma fold_assign_other: "y \<notin> set v \<Longrightarrow> fold (assign_status g) v s y = s y"
  by (induction v arbitrary: s) (auto simp: assign_status_def)

lemma status_from_dependencies_cong:
  "\<forall>d \<in> set (get_dependencies g t). s d = s' d \<Longrightarrow> s t = s' t \<Longrightarrow>
   status_from_dependencies g s t = status_from_dependencies g s' t"
proof -
  assume a: "\<forall>d \<in> set (get_dependencies g t). s d = s' d" and b: "s t = s' t"
  from a have "list_ex (\<lambda>d. s d = blocked) (get_dependencies g t)
      = list_ex (\<lambda>d. s' d = blocked) (get_dependencies g t)"
    by (simp add: list_ex_iff)
  moreover from a have "list_all (\<lambda>d. s d = completed) (get_dependencies g t)
      = list_all (\<lambda>d. s' d = completed) (get_dependencies g t)"
    by (simp add: list_all_iff)
  ultimately show ?thesis using b by (simp add: status_from_dependencies_def Let_def)
qed

lemma status_from_dependencies_idem:
  assumes n: "t \<notin> set (get_dependencies g t)"
  shows "status_from_dependencies g (s(t := status_from_dependencies g s t)) t
     = status_from_dependencies g s t"
proof -
  have ex: "list_ex (\<lambda>d. (s(t := r)) d = blocked) (get_dependencies g t)
      = list_ex (\<lambda>d. s d = blocked) (get_dependencies g t)" for r
    using n by (auto simp: list_ex_iff)
  have al: "list_all (\<lambda>d. (s(t := r)) d = completed) (get_dependencies g t)
      = list_all (\<lambda>d. s d = completed) (get_dependencies g t)" for r
    using n by (auto simp: list_all_iff)
  show ?thesis
    unfolding status_from_dependencies_def Let_def ex al by simp
qed

lemma followed_fixed:
  assumes f: "followed g v" and x: "x \<in> set v"
  shows "assign_status g x (fold (assign_status g) v s) = fold (assign_status g) v s"
proof -
  let ?F = "fold (assign_status g) v s"
  from x obtain v1 v2 where v: "v = v1 @ x # v2" and last: "x \<notin> set v2"
    using split_list_last by fastforce
  let ?S = "fold (assign_status g) v1 s"
  have depfree: "y \<notin> set (x # v2)" if "(x, y) \<in> set g" for y
  proof
    assume "y \<in> set (x # v2)"
    then consider "y = x" | "y \<in> set v2" by auto
    then show False
    proof cases
      case 1
      with that f v have "x \<in> set v2" unfolding followed_def by blast
      with last show False ..
    next
      case 2
      then obtain a b where "v2 = a @ y # b" by (auto dest: split_list)
      with v have "v = (v1 @ x # a) @ y # b" "set b \<subseteq> set v2" by auto
      with that f have "x \<in> set v2" unfolding followed_def by blast
      with last show False ..
    qed
  qed
  have F: "?F = fold (assign_status g) v2 (assign_status g x ?S)" by (simp add: v)
  have Fx: "?F x = status_from_dependencies g ?S x"
    using last by (simp add: F fold_assign_other) (simp add: assign_status_def)
  have noself: "x \<notin> set (get_dependencies g x)"
    using depfree[of x] by (auto simp: get_dependencies_set)
  have Fd: "?F d = (?S(x := status_from_dependencies g ?S x)) d"
    if "d \<in> set (get_dependencies g x)" for d
  proof -
    from that have "(x, d) \<in> set g" by (simp add: get_dependencies_set)
    from depfree[OF this] have "d \<notin> set v2" "d \<noteq> x" by auto
    then show ?thesis by (simp add: F fold_assign_other) (simp add: assign_status_def)
  qed
  have "status_from_dependencies g ?F x
      = status_from_dependencies g (?S(x := status_from_dependencies g ?S x)) x"
    by (rule status_from_dependencies_cong) (use Fd Fx in auto)
  also have "\<dots> = status_from_dependencies g ?S x"
    by (rule status_from_dependencies_idem[OF noself])
  finally have "status_from_dependencies g ?F x = ?F x" by (simp add: Fx)
  then show ?thesis by (auto simp: assign_status_def)
qed

lemma fold_fixed: "\<forall>x \<in> set v. f x s = s \<Longrightarrow> fold f v s = s"
  by (induction v) auto

lemma cascade_idempotent:
  assumes "update_status_based_on_dependencies k g t s = Some s'"
  shows "update_status_based_on_dependencies k g t s' = Some s'"
proof -
  from assms obtain v where v: "visits k g t = Some v" and s': "s' = fold (assign_status g) v s"
    by (auto simp: cascade_as_fold(1))
  from visits_shape(1)[OF v] have f: "followed g v" by simp
  have "fold (assign_status g) v s' = s'"
    by (rule fold_fixed) (use followed_fixed[OF f] s' in auto)
  with v show ?thesis by (simp add: cascade_as_fold(1))
qed

lemma visits_fuel_mono:
  "visits k g t = Some v \<Longrightarrow> visits (Suc k) g t = Some v"
  "visits_all k g ds = Some v \<Longrightarrow> visits_all (Suc k) g ds = Some v"
proof (induction k g t and k g ds arbitrary: v and v rule: visits_visits_all.induct)
  case (1 g t)
  then show ?case by simp
next
  case (2 k g t)
  then show ?case by auto
next
  case (3 k g)
  then show ?case by simp
next
  case (4 k g dependent rest)
  then show ?case by (auto split: option.splits)
qed

lemma visits_fuel_le: "k \<le> k' \<Longrightarrow> visits k g t = Some v \<Longrightarrow> visits k' g t = Some v"
proof (induction rule: dec_induct)
  case base
  then show ?case .
next
  case (step n)
  then show ?case using visits_fuel_mono(1) by blast
qed

lemma visits_all_fuel_le:
  "k \<le> k' \<Longrightarrow> visits_all k g ds = Some v \<Longrightarrow> visits_all k' g ds = Some v"
proof (induction rule: dec_induct)
  case base
  then show ?case .
next
  case (step n)
  then show ?case using visits_fuel_mono(2) by blast
qed

lemma visits_all_exists:
  "\<forall>d \<in> set ds. \<exists>k v. visits k g d = Some v \<Longrightarrow> \<exists>k v. visits_all k g ds = Some v"
proof (induction ds)
  case Nil
  show ?case by simp
next
  case (Cons d ds)
  then obtain k1 v1 k2 v2 where 1: "visits k1 g d = Some v1" and 2: "visits_all k2 g ds = Some v2"
    by auto
  have "visits (max k1 k2) g d = Some v1" by (rule visits_fuel_le[OF _ 1]) simp
  moreover have "visits_all (max k1 k2) g ds = Some v2"
    by (rule visits_all_fuel_le[OF _ 2]) simp
  ultimately have "visits_all (max k1 k2) g (d # ds) = Some (v1 @ v2)" by simp
  then show ?case by blast
qed

lemma visits_terminates:
  assumes "acyclic (set g)"
  shows "\<exists>k v. visits k g t = Some v"
proof -
  from assms have "wf (set g)" by (simp add: finite_acyclic_wf)
  then show ?thesis
  proof (induction t rule: wf_induct_rule)
    case (less t)
    have "\<forall>d \<in> set (get_dependents g t). \<exists>k v. visits k g d = Some v"
      using less by (auto simp: get_dependents_def)
    from visits_all_exists[OF this] obtain k v where
      "visits_all k g (get_dependents g t) = Some v" by blast
    then have "visits (Suc k) g t = Some (t # v)" by simp
    then show ?case by blast
  qed
qed

lemma acyclic_chain: "acyclic (set [(3::nat, 1::nat), (4, 3)])"
proof -
  have "wf (measure (\<lambda>n::nat. n))" by simp
  moreover have "(set [(3::nat, 1::nat), (4, 3)])\<inverse> \<subseteq> measure (\<lambda>n. n)" by auto
  ultimately have "wf ((set [(3::nat, 1::nat), (4, 3)])\<inverse>)" by (rule wf_subset)
  then show ?thesis using wf_acyclic acyclic_converse by blast
qed

lemma blocked_and_completed_rules:
  "list_ex (\<lambda>d. s d = blocked) (get_dependencies g t) \<Longrightarrow>
     status_from_dependencies g s t = blocked"
  "\<not> list_ex (\<lambda>d. s d = blocked) (get_dependencies g t) \<Longrightarrow>
   list_all (\<lambda>d. s d = completed) (get_dependencies g t) \<Longrightarrow>
     status_from_dependencies g s t = in_progress"
  by (simp_all add: status_from_dependencies_def)

text \<open>
  C7. On an acyclic graph the cascade started at any task, from any table of statuses (so
  after any status change), ends, and run again on the statuses it produced it changes
  nothing.
\<close>

theorem cascade_reaches_fixed_point:
  "acyclic (set g) \<Longrightarrow>
   (\<exists>k s'. update_status_based_on_dependencies k g t s = Some s') \<and>
   (\<forall>k s'. update_status_based_on_dependencies k g t s = Some s' \<longrightarrow>
           update_status_based_on_dependencies k g t s' = Some s')"
proof -
  assume "acyclic (set g)"
  from visits_terminates[OF this] obtain k v where "visits k g t = Some v" by blast
  then have "update_status_based_on_dependencies k g t s = Some (fold (assign_status g) v s)"
    by (simp add: cascade_as_fold(1))
  then show ?thesis using cascade_idempotent by blast
qed

theorem cascade_reaches_fixed_point_witness:
  "acyclic (set [(3::nat, 1::nat), (4, 3)]) \<and>
   (\<exists>s'. update_status_based_on_dependencies 3 [(3, 1), (4, 3)] 3
            ((\<lambda>_. pending)(1 := blocked)) = Some s' \<and>
         update_status_based_on_dependencies 3 [(3, 1), (4, 3)] 3 s' = Some s' \<and>
         map s' [1, 3, 4] = [blocked, blocked, blocked])"
proof -
  let ?g = "[(3::nat, 1::nat), (4, 3)]"
  let ?s = "(\<lambda>_. pending)(1 := blocked) :: statuses"
  obtain s' where s': "update_status_based_on_dependencies 3 ?g 3 ?s = Some s'"
    by (simp add: numeral_3_eq_3 get_dependents_def)
  have "map_option (\<lambda>s'. map s' [1, 3, 4]) (update_status_based_on_dependencies 3 ?g 3 ?s)
      = Some [blocked, blocked, blocked]"
    by (simp add: numeral_3_eq_3 get_dependents_def get_dependencies_def
        status_from_dependencies_def)
  with s' have m: "map s' [1, 3, 4] = [blocked, blocked, blocked]" by simp
  from cascade_reaches_fixed_point[OF acyclic_chain, of 3 ?s] s'
  have "update_status_based_on_dependencies 3 ?g 3 s' = Some s'" by blast
  with s' m have "\<exists>s'. update_status_based_on_dependencies 3 ?g 3 ?s = Some s' \<and>
         update_status_based_on_dependencies 3 ?g 3 s' = Some s' \<and>
         map s' [1, 3, 4] = [blocked, blocked, blocked]"
    by (intro exI[of _ s']) simp
  with acyclic_chain show ?thesis by (rule conjI)
qed

text \<open>
  C2, the third rule on the code. Task 2 depends on task 1, which is \<open>pending\<close>: no
  dependency is blocked and not all are completed. The docstring's rule 3 sets the status to
  \<open>pending\<close>; the code has no branch for this case and task 2 stays \<open>in_progress\<close>, or
  \<open>blocked\<close>, as it was.
\<close>

theorem mixed_dependencies_keep_status:
  "status_from_dependencies [(2, 1)] ((\<lambda>_. pending)(2 := in_progress)) 2 = in_progress \<and>
   status_from_dependencies [(2, 1)] ((\<lambda>_. pending)(2 := blocked)) 2 = blocked"
  by (simp add: status_from_dependencies_def get_dependencies_def)

text \<open>
  C6 on the code. Task 1 has no dependencies and is \<open>blocked\<close>; tasks 3 and 4 depend on it
  in a chain, as in \<open>test_cascading_status_updates\<close>. \<open>all\<close> over no dependencies holds, so
  the resolver sets task 1 to \<open>in_progress\<close>, and the cascade leaves tasks 3 and 4 \<open>pending\<close>
  where the test expects \<open>blocked\<close>.
\<close>

theorem no_dependencies_becomes_in_progress:
  "status_from_dependencies [(3, 1), (4, 3)] ((\<lambda>_. pending)(1 := blocked)) 1 = in_progress \<and>
   map_option (\<lambda>s'. map s' [1, 3, 4])
     (update_status_based_on_dependencies 3 [(3, 1), (4, 3)] 1 ((\<lambda>_. pending)(1 := blocked)))
   = Some [in_progress, pending, pending]"
  by (simp add: numeral_3_eq_3 get_dependents_def get_dependencies_def
        status_from_dependencies_def)

text \<open>
  C3, as the code has it. The resolver does not look at the task's own status: a completed
  task with at least one dependency becomes \<open>blocked\<close> when one of its dependencies is
  blocked, and \<open>in_progress\<close> when all of them are completed.
\<close>

theorem completed_is_overwritten:
  "s t = completed \<Longrightarrow> get_dependencies g t \<noteq> [] \<Longrightarrow>
   ((\<exists>d \<in> set (get_dependencies g t). s d = blocked) \<longrightarrow>
       status_from_dependencies g s t = blocked) \<and>
   ((\<forall>d \<in> set (get_dependencies g t). s d = completed) \<longrightarrow>
       status_from_dependencies g s t = in_progress)"
  by (auto simp: status_from_dependencies_def list_ex_iff list_all_iff)

theorem completed_is_overwritten_witness:
  "((\<lambda>_. completed)(1 := blocked)) (2::nat) = completed \<and> get_dependencies [(2, 1)] 2 \<noteq> [] \<and>
   list_ex (\<lambda>d. ((\<lambda>_. completed)(1 := blocked)) d = blocked) (get_dependencies [(2, 1)] 2) \<and>
   status_from_dependencies [(2, 1)] ((\<lambda>_. completed)(1 := blocked)) 2 = blocked \<and>
   list_all (\<lambda>d. (\<lambda>_. completed) d = completed) (get_dependencies [(2, 1)] 2) \<and>
   status_from_dependencies [(2, 1)] (\<lambda>_. completed) 2 = in_progress"
proof -
  let ?s = "(\<lambda>_. completed)(1 := blocked) :: statuses"
  have a: "?s 2 = completed" by simp
  have b: "get_dependencies [(2, 1)] 2 \<noteq> []" by (simp add: get_dependencies_def)
  have c: "\<exists>d \<in> set (get_dependencies [(2, 1)] 2). ?s d = blocked"
    by (simp add: get_dependencies_def)
  have a': "(\<lambda>_. completed) (2::nat) = completed" by simp
  have c': "\<forall>d \<in> set (get_dependencies [(2, 1)] 2). (\<lambda>_::nat. completed) d = completed"
    by simp
  from completed_is_overwritten[of ?s 2 "[(2, 1)]", OF a b] c
  have r1: "status_from_dependencies [(2, 1)] ?s 2 = blocked" by blast
  from completed_is_overwritten[of "\<lambda>_. completed" 2 "[(2, 1)]", OF a' b] c'
  have r2: "status_from_dependencies [(2, 1)] (\<lambda>_. completed) 2 = in_progress" by blast
  from a b c c' r1 r2 show ?thesis by (simp add: list_ex_iff list_all_iff)
qed

text \<open>
  C3 as stated fails: task 2 is \<open>completed\<close> and depends on the blocked task 1; the resolver
  gives it \<open>blocked\<close>, and so does the cascade started at task 2.
\<close>

theorem completed_is_overwritten_counterexample:
  "((\<lambda>_. completed)(1 := blocked)) (2::nat) = completed \<and>
   status_from_dependencies [(2, 1)] ((\<lambda>_. completed)(1 := blocked)) 2 \<noteq> completed \<and>
   map_option (\<lambda>s'. s' 2)
     (update_status_based_on_dependencies 1 [(2, 1)] 2 ((\<lambda>_. completed)(1 := blocked)))
     = Some blocked"
  by (simp add: get_dependents_def get_dependencies_def status_from_dependencies_def)


section \<open>The layout ends and places every node\<close>

lemma layer_of_push:
  "layer_of (push_layer l n ls) k = (if k = l then layer_of ls l @ [n] else layer_of ls k)"
  by (induction l n ls rule: push_layer.induct) (auto simp: layer_of_def)

lemma keys_push: "fst ` set (push_layer l n ls) = insert l (fst ` set ls)"
  by (induction l n ls rule: push_layer.induct) auto

lemma layer_nodes_push: "layer_nodes (push_layer l n ls) = insert n (layer_nodes ls)"
proof -
  let ?K = "fst ` set ls"
  have absent: "set (layer_of ls l) \<subseteq> (\<Union>k \<in> ?K. set (layer_of ls k))"
  proof (cases "l \<in> ?K")
    case True
    then show ?thesis by blast
  next
    case False
    then have "map_of ls l = None" by (simp add: map_of_eq_None_iff)
    then show ?thesis by (simp add: layer_of_def)
  qed
  have "layer_nodes (push_layer l n ls)
      = (\<Union>k \<in> insert l ?K. set (if k = l then layer_of ls l @ [n] else layer_of ls k))"
    by (simp add: layer_nodes_def keys_push layer_of_push)
  also have "\<dots> = insert n (set (layer_of ls l)) \<union> (\<Union>k \<in> ?K - {l}. set (layer_of ls k))"
    by (auto split: if_splits)
  also have "\<dots> = insert n (\<Union>k \<in> ?K. set (layer_of ls k))"
    using absent by blast
  finally show ?thesis by (simp add: layer_nodes_def)
qed

lemma calculateLayer_grows:
  "calculateLayer k es nodeId layer st = Some st' \<Longrightarrow>
     visited st \<subseteq> visited st' \<and> nodeId \<in> visited st' \<and>
     (visited st \<subseteq> layer_nodes (layers st) \<longrightarrow> visited st' \<subseteq> layer_nodes (layers st'))"
  "calculateLayer_forEach k es ds layer st = Some st' \<Longrightarrow>
     visited st \<subseteq> visited st' \<and> set ds \<subseteq> visited st' \<and>
     (visited st \<subseteq> layer_nodes (layers st) \<longrightarrow> visited st' \<subseteq> layer_nodes (layers st'))"
proof (induction k es nodeId layer st and k es ds layer st arbitrary: st' and st'
       rule: calculateLayer_calculateLayer_forEach.induct)
  case (1 es nodeId layer st)
  then show ?case by simp
next
  case (2 k es nodeId layer st)
  show ?case
  proof (cases "nodeId \<in> visited st")
    case True
    with "2.prems" show ?thesis by auto
  next
    case False
    let ?st1 = "st\<lparr>visited := insert nodeId (visited st),
                   layers := push_layer layer nodeId (layers st)\<rparr>"
    from False "2.prems" have
      "calculateLayer_forEach k es (dependents_of es nodeId) (layer + 1) ?st1 = Some st'"
      by simp
    from "2.IH"[OF False this] show ?thesis
      by (auto simp: layer_nodes_push)
  qed
next
  case (3 k es layer st)
  then show ?case by simp
next
  case (4 k es depId rest layer st)
  from "4.prems" obtain st1 where
    1: "calculateLayer k es depId layer st = Some st1" and
    2: "calculateLayer_forEach k es rest layer st1 = Some st'"
    by (auto split: option.splits)
  from "4.IH"(1)[OF 1] "4.IH"(2)[OF 1 2] show ?case by auto
qed

lemma unvisited_sources_mono:
  "visited st \<subseteq> visited st' \<Longrightarrow> card (unvisited_sources es st') \<le> card (unvisited_sources es st)"
  by (auto simp: unvisited_sources_def intro!: card_mono)

lemma forEach_returns:
  assumes step: "\<And>nodeId layer st. nodeId \<in> edge_from ` set es \<Longrightarrow>
      card (unvisited_sources es st) \<le> b \<Longrightarrow> \<exists>st'. calculateLayer k es nodeId layer st = Some st'"
  shows "set ds \<subseteq> edge_from ` set es \<Longrightarrow> card (unvisited_sources es st) \<le> b \<Longrightarrow>
     \<exists>st'. calculateLayer_forEach k es ds layer st = Some st'"
proof (induction ds arbitrary: st)
  case Nil
  show ?case by simp
next
  case (Cons d ds)
  from step[of d st layer] Cons.prems obtain st1 where
    1: "calculateLayer k es d layer st = Some st1" by auto
  from calculateLayer_grows(1)[OF 1] have "visited st \<subseteq> visited st1" by simp
  from unvisited_sources_mono[OF this] Cons.prems(2)
  have "card (unvisited_sources es st1) \<le> b" by (rule order_trans)
  with Cons.IH[of st1] Cons.prems(1) obtain st' where
    "calculateLayer_forEach k es ds layer st1 = Some st'" by auto
  with 1 show ?case by simp
qed

lemma dependents_are_sources: "set (dependents_of es nodeId) \<subseteq> edge_from ` set es"
  by (auto simp: dependents_of_def)

lemma mark_source:
  assumes "nodeId \<in> edge_from ` set es" "nodeId \<notin> visited st"
  shows "card (unvisited_sources es (st\<lparr>visited := insert nodeId (visited st), layers := ls\<rparr>))
           < card (unvisited_sources es st)"
proof -
  have "unvisited_sources es (st\<lparr>visited := insert nodeId (visited st), layers := ls\<rparr>)
          \<subset> unvisited_sources es st"
    using assms by (auto simp: unvisited_sources_def)
  moreover have "finite (unvisited_sources es st)" by (simp add: unvisited_sources_def)
  ultimately show ?thesis by (rule psubset_card_mono[rotated])
qed

lemma calculateLayer_returns_source:
  "nodeId \<in> edge_from ` set es \<Longrightarrow> card (unvisited_sources es st) \<le> b \<Longrightarrow>
   \<exists>st'. calculateLayer (Suc b) es nodeId layer st = Some st'"
proof (induction b arbitrary: nodeId layer st)
  case 0
  then have "unvisited_sources es st = {}" by (simp add: unvisited_sources_def)
  with "0.prems"(1) have "nodeId \<in> visited st" by (auto simp: unvisited_sources_def)
  then show ?case by simp
next
  case (Suc b)
  show ?case
  proof (cases "nodeId \<in> visited st")
    case True
    then show ?thesis by simp
  next
    case False
    let ?st1 = "st\<lparr>visited := insert nodeId (visited st),
                   layers := push_layer layer nodeId (layers st)\<rparr>"
    from mark_source[OF Suc.prems(1) False, of "push_layer layer nodeId (layers st)"]
      Suc.prems(2)
    have "card (unvisited_sources es ?st1) \<le> b" by linarith
    with forEach_returns[of es b "Suc b", OF Suc.IH dependents_are_sources]
    obtain st' where
      "calculateLayer_forEach (Suc b) es (dependents_of es nodeId) (layer + 1) ?st1 = Some st'"
      by blast
    with False show ?thesis by simp
  qed
qed

lemma calculateLayer_returns:
  assumes "card (unvisited_sources es st) \<le> b"
  shows "\<exists>st'. calculateLayer (Suc (Suc b)) es nodeId layer st = Some st'"
proof (cases "nodeId \<in> visited st")
  case True
  then show ?thesis by simp
next
  case False
  let ?st1 = "st\<lparr>visited := insert nodeId (visited st),
                 layers := push_layer layer nodeId (layers st)\<rparr>"
  have "visited st \<subseteq> visited ?st1" by auto
  from unvisited_sources_mono[OF this] assms
  have "card (unvisited_sources es ?st1) \<le> b" by (rule order_trans)
  with forEach_returns[of es b "Suc b", OF calculateLayer_returns_source dependents_are_sources]
  obtain st' where
    "calculateLayer_forEach (Suc b) es (dependents_of es nodeId) (layer + 1) ?st1 = Some st'"
    by blast
  with False show ?thesis by simp
qed

lemma roots_return:
  "card (unvisited_sources es st) \<le> b \<Longrightarrow>
   \<exists>st'. calculateLayer_forEach (Suc (Suc b)) es roots layer st = Some st'"
proof (induction roots arbitrary: st)
  case Nil
  show ?case by simp
next
  case (Cons r roots)
  from calculateLayer_returns[OF Cons.prems] obtain st1 where
    1: "calculateLayer (Suc (Suc b)) es r layer st = Some st1" by blast
  from calculateLayer_grows(1)[OF 1] have "visited st \<subseteq> visited st1" by simp
  from unvisited_sources_mono[OF this] Cons.prems
  have "card (unvisited_sources es st1) \<le> b" by (rule order_trans)
  from Cons.IH[OF this] obtain st' where
    "calculateLayer_forEach (Suc (Suc b)) es roots layer st1 = Some st'" by blast
  with 1 show ?case by simp
qed

lemma sources_bound: "card (unvisited_sources es st) \<le> length es"
proof -
  have "card (unvisited_sources es st) \<le> card (edge_from ` set es)"
    by (auto simp: unvisited_sources_def intro!: card_mono)
  also have "\<dots> \<le> card (set es)" by (simp add: card_image_le)
  also have "\<dots> \<le> length es" by (rule card_length)
  finally show ?thesis .
qed


lemma layer_nodes_add_remaining:
  "layer_nodes (add_remaining ns st)
     = layer_nodes (layers st) \<union> (node_id ` set ns - visited st)"
proof -
  have "layer_nodes (fold (\<lambda>node ls. if node_id node \<in> visited st then ls
                                    else push_layer 0 (node_id node) ls) ns ls)
      = layer_nodes ls \<union> (node_id ` set ns - visited st)" for ls
    by (induction ns arbitrary: ls) (auto simp: layer_nodes_push)
  then show ?thesis by (simp add: add_remaining_def)
qed

lemma dom_place_nodes:
  "dom (fold (\<lambda>(index, nodeId) p. p(nodeId \<mapsto> f index)) (enumerate j ns) pos)
     = dom pos \<union> set ns"
  by (induction ns arbitrary: j pos) auto

lemma dom_place_layer: "dom (place_layer i ns pos) = dom pos \<union> set ns"
  unfolding place_layer_def Let_def by (rule dom_place_nodes)

lemma dom_place_keys:
  "dom (fold (\<lambda>(layerIndex, layerKey) p. place_layer layerIndex (layer_of ls layerKey) p)
          (enumerate j ks) pos)
     = dom pos \<union> (\<Union>k \<in> set ks. set (layer_of ls k))"
  by (induction ks arbitrary: j pos) (auto simp: dom_place_layer)

lemma dom_place_layers: "dom (place_layers ls) = layer_nodes ls"
  by (simp add: place_layers_def dom_place_keys layer_nodes_def)

lemma traversal_returns:
  assumes k: "length es + 2 \<le> k"
  shows "\<exists>st'. calculateLayer k es nodeId layer st = Some st'"
    and "\<exists>st'. calculateLayer_forEach k es roots layer st = Some st'"
proof -
  from k obtain b where b: "k = Suc (Suc b)" "length es \<le> b"
    by (metis add_2_eq_Suc' le_Suc_ex add_Suc_right add_Suc le_add1)
  have "card (unvisited_sources es st) \<le> b"
    using sources_bound[of es st] b(2) by (rule order_trans)
  then show "\<exists>st'. calculateLayer k es nodeId layer st = Some st'"
    and "\<exists>st'. calculateLayer_forEach k es roots layer st = Some st'"
    unfolding b(1) by (rule calculateLayer_returns, rule roots_return)
qed

lemma remaining_nodes_in_layer_0:
  assumes "node \<in> set ns" "node_id node \<notin> visited st"
  shows "node_id node \<in> set (layer_of (add_remaining ns st) 0)"
proof -
  let ?f = "\<lambda>node ls. if node_id node \<in> visited st then ls else push_layer 0 (node_id node) ls"
  have keep: "set (layer_of ls 0) \<subseteq> set (layer_of (fold ?f ns ls) 0)" for ns ls
  proof (induction ns arbitrary: ls)
    case Nil
    show ?case by simp
  next
    case (Cons a ns)
    have "set (layer_of ls 0) \<subseteq> set (layer_of (?f a ls) 0)"
      by (auto simp: layer_of_push)
    also have "\<dots> \<subseteq> set (layer_of (fold ?f ns (?f a ls)) 0)" by (rule Cons.IH)
    finally show ?case by simp
  qed
  have "node_id node \<in> set (layer_of (fold ?f ns ls) 0)" for ls
    using assms(1)
  proof (induction ns arbitrary: ls)
    case Nil
    then show ?case by simp
  next
    case (Cons a ns)
    show ?case
    proof (cases "a = node")
      case True
      have "node_id node \<in> set (layer_of (push_layer 0 (node_id node) ls) 0)"
        by (simp add: layer_of_push)
      with keep[of "push_layer 0 (node_id node) ls" ns] True assms(2) show ?thesis by auto
    next
      case False
      with Cons show ?thesis by auto
    qed
  qed
  then show ?thesis by (simp add: add_remaining_def)
qed

lemma example_positions:
  "map_option (\<lambda>p. map p [1, 2, 3, 5, 6]) (calculateNodePositions 6 example_graphData Map.empty)
     = Some [Some (- 200, 0), Some (0, 100), Some (0, 200), Some (0, 0), Some (200, 0)]"
  by code_simp

text \<open>
  C10. For every \<open>graphData\<close>, cyclic edges and disconnected nodes included,
  \<open>calculateNodePositions\<close> returns once the calls may nest two deeper than there are edges,
  and the positions it sets have an entry for every node of \<open>graphData.nodes\<close>: the visited
  nodes sit in the layer the recursion gave them, the others in layer 0
  (\<open>remaining_nodes_in_layer_0\<close>), and every node of every layer is placed.
\<close>

theorem calculateNodePositions_places_every_node:
  "length (edges gd) + 2 \<le> k \<Longrightarrow>
   \<exists>positions. calculateNodePositions k gd nodePositions = Some positions \<and>
     (\<forall>node \<in> set (nodes gd). node_id node \<in> dom positions)"
proof (cases "nodes gd")
  case Nil
  then show ?thesis by (simp add: calculateNodePositions_def)
next
  case (Cons first rest)
  assume k: "length (edges gd) + 2 \<le> k"
  let ?st0 = "\<lparr>visited = {}, layers = []\<rparr>"
  let ?run = "if rootNodes gd = []
              then calculateLayer k (edges gd) (node_id first) 0 ?st0
              else calculateLayer_forEach k (edges gd) (rootNodes gd) 0 ?st0"
  obtain st where st: "?run = Some st"
  proof (cases "rootNodes gd = []")
    case True
    from traversal_returns(1)[OF k, of "node_id first" 0 ?st0] True that
    show ?thesis by auto
  next
    case False
    from traversal_returns(2)[OF k, of "rootNodes gd" 0 ?st0] False that
    show ?thesis by auto
  qed
  have "visited ?st0 \<subseteq> layer_nodes (layers ?st0)" by simp
  with st calculateLayer_grows have vis: "visited st \<subseteq> layer_nodes (layers st)"
    by (auto split: if_splits)
  let ?positions = "place_layers (add_remaining (nodes gd) st)"
  have "calculateNodePositions k gd nodePositions = Some ?positions"
    using Cons st by (simp add: calculateNodePositions_def)
  moreover have "node_id node \<in> dom ?positions" if "node \<in> set (nodes gd)" for node
    using that vis by (auto simp: dom_place_layers layer_nodes_add_remaining)
  ultimately show ?thesis by blast
qed


theorem calculateNodePositions_places_every_node_witness:
  "length (edges example_graphData) + 2 \<le> 6 \<and>
   (\<exists>positions. calculateNodePositions 6 example_graphData Map.empty = Some positions \<and>
      list_all (\<lambda>node. node_id node \<in> dom positions) (nodes example_graphData) \<and>
      map positions [1, 2, 3, 5, 6]
        = [Some (- 200, 0), Some (0, 100), Some (0, 200), Some (0, 0), Some (200, 0)])"
proof -
  have k: "length (edges example_graphData) + 2 \<le> 6"
    by (simp add: example_graphData_def)
  from calculateNodePositions_places_every_node[OF k, of Map.empty] obtain positions where
    p: "calculateNodePositions 6 example_graphData Map.empty = Some positions" and
    d: "\<forall>node \<in> set (nodes example_graphData). node_id node \<in> dom positions"
    by blast
  from p example_positions
  have m: "map positions [1, 2, 3, 5, 6]
        = [Some (- 200, 0), Some (0, 100), Some (0, 200), Some (0, 0), Some (200, 0)]"
    by simp
  show ?thesis
  proof (intro conjI exI[of _ positions])
    show "length (edges example_graphData) + 2 \<le> 6" by (rule k)
    show "calculateNodePositions 6 example_graphData Map.empty = Some positions" by (rule p)
    show "list_all (\<lambda>node. node_id node \<in> dom positions) (nodes example_graphData)"
      using d by (simp add: list_all_iff)
    show "map positions [1, 2, 3, 5, 6]
        = [Some (- 200, 0), Some (0, 100), Some (0, 200), Some (0, 0), Some (200, 0)]"
      by (rule m)
  qed
qed


end
